theory Spec2Isabelle
  imports Complex_Main "HOL-Library.List_Lexorder"
begin

section \<open>The bAbI question-answering data set of neon (neon/data/questionanswer.py)\<close>

text \<open>
  The module is Python 2: \<^verbatim>\<open>reduce\<close> is the builtin, \<^verbatim>\<open>/\<close> on two ints is floor
  division, and the text read from the data files is a byte string that
  \<^verbatim>\<open>data_to_list\<close> decodes to a unicode string. Every exception the module can
  raise is a value of \<open>error\<close>; a function that can raise returns \<open>error + 'a\<close>,
  with \<open>Inl\<close> for the exception.
\<close>

datatype error =
    TypeError
  | ValueError
  | KeyError
  | IndexError
  | AttributeError
  | ZeroDivisionError
  | UnicodeDecodeError

text \<open>
  A list comprehension whose element expression can raise: the elements are
  evaluated from left to right and the first exception ends the comprehension.
\<close>

fun map_result :: "('a \<Rightarrow> error + 'b) \<Rightarrow> 'a list \<Rightarrow> error + 'b list" where
  "map_result f [] = Inr []"
| "map_result f (x # xs) =
     (case f x of
        Inl e \<Rightarrow> Inl e
      | Inr y \<Rightarrow> (case map_result f xs of Inl e \<Rightarrow> Inl e | Inr ys \<Rightarrow> Inr (y # ys)))"

text \<open>
  \<^verbatim>\<open>reduce(f, xs)\<close> without an initial value: the first element starts the fold, and an
  empty sequence raises TypeError.
\<close>

fun reduce :: "('a \<Rightarrow> 'a \<Rightarrow> 'a) \<Rightarrow> 'a list \<Rightarrow> error + 'a" where
  "reduce f [] = Inl TypeError"
| "reduce f (x # xs) = Inr (foldl f x xs)"

subsection \<open>Text: bytes, unicode strings and the string methods the parser calls\<close>

text \<open>
  A byte string is a \<open>string\<close> (a list of 8-bit characters). A unicode string is the
  list of its code points, as a UCS-4 build of Python 2.7 stores it; two unicode strings
  compare by code points, lexicographically, a proper prefix coming first.
\<close>

type_synonym bytes = string
type_synonym unicode = "nat list"

definition u :: "string \<Rightarrow> unicode" where
  \<comment> \<open>the unicode literal with the given ASCII characters\<close>
  "u s = map of_char s"

text \<open>\<^verbatim>\<open>s.split(sep)\<close> for a one-character separator: every occurrence splits.\<close>

fun split :: "'a \<Rightarrow> 'a list \<Rightarrow> 'a list list" where
  "split sep [] = [[]]"
| "split sep (c # cs) =
     (if c = sep then [] # split sep cs
      else (case split sep cs of
              [] \<Rightarrow> [[c]]
            | p # ps \<Rightarrow> (c # p) # ps))"

text \<open>\<^verbatim>\<open>s.split(sep, 1)\<close>: only the first occurrence splits.\<close>

definition split1 :: "'a \<Rightarrow> 'a list \<Rightarrow> 'a list list" where
  "split1 sep s =
     (if sep \<in> set s
      then [takeWhile (\<lambda>c. c \<noteq> sep) s, tl (dropWhile (\<lambda>c. c \<noteq> sep) s)]
      else [s])"

text \<open>
  \<^verbatim>\<open>line.decode('utf-8')\<close> in strict mode, as Python 2.7 decodes: sequences of one to
  four bytes, overlong forms and code points above 0x10FFFF refused, the encodings of
  surrogates accepted. Any malformed sequence raises UnicodeDecodeError.
\<close>

definition cont :: "nat \<Rightarrow> bool" where
  "cont b = (128 \<le> b \<and> b < 192)"

fun decode_utf8 :: "nat list \<Rightarrow> error + unicode" where
  "decode_utf8 [] = Inr []"
| "decode_utf8 (b0 # bs) =
     (if b0 < 128 then
        (case decode_utf8 bs of Inl e \<Rightarrow> Inl e | Inr cs \<Rightarrow> Inr (b0 # cs))
      else if 194 \<le> b0 \<and> b0 < 224 then
        (case bs of
           b1 # r \<Rightarrow>
             if cont b1 then
               (case decode_utf8 r of
                  Inl e \<Rightarrow> Inl e
                | Inr cs \<Rightarrow> Inr (((b0 - 192) * 64 + (b1 - 128)) # cs))
             else Inl UnicodeDecodeError
         | _ \<Rightarrow> Inl UnicodeDecodeError)
      else if 224 \<le> b0 \<and> b0 < 240 then
        (case bs of
           b1 # b2 # r \<Rightarrow>
             if cont b1 \<and> cont b2 \<and> \<not> (b0 = 224 \<and> b1 < 160) then
               (case decode_utf8 r of
                  Inl e \<Rightarrow> Inl e
                | Inr cs \<Rightarrow>
                    Inr (((b0 - 224) * 4096 + (b1 - 128) * 64 + (b2 - 128)) # cs))
             else Inl UnicodeDecodeError
         | _ \<Rightarrow> Inl UnicodeDecodeError)
      else if 240 \<le> b0 \<and> b0 < 245 then
        (case bs of
           b1 # b2 # b3 # r \<Rightarrow>
             if cont b1 \<and> cont b2 \<and> cont b3
                \<and> \<not> (b0 = 240 \<and> b1 < 144) \<and> \<not> (b0 = 244 \<and> 143 < b1) then
               (case decode_utf8 r of
                  Inl e \<Rightarrow> Inl e
                | Inr cs \<Rightarrow>
                    Inr (((b0 - 240) * 262144 + (b1 - 128) * 4096
                          + (b2 - 128) * 64 + (b3 - 128)) # cs))
             else Inl UnicodeDecodeError
         | _ \<Rightarrow> Inl UnicodeDecodeError)
      else Inl UnicodeDecodeError)"

definition decode :: "bytes \<Rightarrow> error + unicode" where
  "decode line = decode_utf8 (map of_char line)"

text \<open>
  \<^verbatim>\<open>s.strip()\<close> on a unicode string removes the leading and trailing whitespace; the
  whitespace code points are those of Python 2.7's unicode database.
\<close>

definition isspace :: "nat \<Rightarrow> bool" where
  "isspace c =
     ((9 \<le> c \<and> c \<le> 13) \<or> (28 \<le> c \<and> c \<le> 32) \<or> c = 133 \<or> c = 160
      \<or> c = 5760 \<or> c = 6158 \<or> (8192 \<le> c \<and> c \<le> 8202) \<or> c = 8232 \<or> c = 8233
      \<or> c = 8239 \<or> c = 8287 \<or> c = 12288)"

definition strip :: "unicode \<Rightarrow> unicode" where
  "strip s = rev (dropWhile isspace (rev (dropWhile isspace s)))"

text \<open>
  \<^verbatim>\<open>int(s)\<close> on a unicode string, base 10: whitespace around an optional sign and at least
  one digit; anything else raises ValueError. Only the ASCII digits are read as digits
  (the other decimal digits of the unicode database are left out of \<open>digit\<close>).
\<close>

definition digit :: "nat \<Rightarrow> bool" where
  "digit c = (48 \<le> c \<and> c \<le> 57)"

definition digits_value :: "unicode \<Rightarrow> int" where
  "digits_value ds = foldl (\<lambda>n c. 10 * n + int (c - 48)) 0 ds"

definition py_int :: "unicode \<Rightarrow> error + int" where
  "py_int s =
     (let t = strip s;
          neg = (t \<noteq> [] \<and> hd t = 45);
          ds = (if t \<noteq> [] \<and> (hd t = 43 \<or> hd t = 45) then tl t else t)
      in if ds \<noteq> [] \<and> list_all digit ds
         then Inr (if neg then - digits_value ds else digits_value ds)
         else Inl ValueError)"

text \<open>
  \<^verbatim>\<open>re.split('(\W+)?', sentence)\<close>. The pattern is compiled without re.UNICODE, so a word
  character is an ASCII letter, an ASCII digit or the underscore. Python 2.7 never splits
  on an empty match, so the string is cut at the maximal runs of non-word characters, and
  the capturing group puts each run into the result between the pieces around it.
\<close>

definition word_char :: "nat \<Rightarrow> bool" where
  "word_char c = ((48 \<le> c \<and> c \<le> 57) \<or> (65 \<le> c \<and> c \<le> 90) \<or> c = 95 \<or> (97 \<le> c \<and> c \<le> 122))"

function re_split :: "unicode \<Rightarrow> unicode list" where
  "re_split s =
     (let piece = takeWhile word_char s;
          rest = dropWhile word_char s
      in if rest = [] then [piece]
         else piece # takeWhile (\<lambda>c. \<not> word_char c) rest
                # re_split (dropWhile (\<lambda>c. \<not> word_char c) rest))"
  by pat_completeness auto
termination
proof (relation "measure length")
  show "wf (measure length)" by simp
next
  fix s :: unicode and piece rest
  assume "piece = takeWhile word_char s" and r: "rest = dropWhile word_char s"
    and ne: "rest \<noteq> []"
  have "\<not> word_char (hd rest)"
    using r ne hd_dropWhile by metis
  then have "dropWhile (\<lambda>c. \<not> word_char c) rest = dropWhile (\<lambda>c. \<not> word_char c) (tl rest)"
    using ne by (cases rest) auto
  moreover have "length (dropWhile (\<lambda>c. \<not> word_char c) (tl rest)) \<le> length (tl rest)"
    by (rule length_dropWhile_le)
  ultimately have "length (dropWhile (\<lambda>c. \<not> word_char c) rest) \<le> length (tl rest)"
    by simp
  also have "\<dots> < length rest" using ne by (cases rest) auto
  also have "\<dots> \<le> length s" unfolding r by (rule length_dropWhile_le)
  finally show "(dropWhile (\<lambda>c. \<not> word_char c) rest, s) \<in> measure length" by simp
qed

subsection \<open>BABI: parsing\<close>

text \<open>\<^verbatim>\<open>BABI.data_to_list\<close>: the lines of a block of data, cleaned.\<close>

definition data_to_list :: "bytes \<Rightarrow> error + unicode list" where
  "data_to_list data =
     (let split_lines = butlast (split (CHR 0x0A) data)
      in map_result
           (\<lambda>line. case decode line of Inl e \<Rightarrow> Inl e | Inr l \<Rightarrow> Inr (strip l))
           split_lines)"

text \<open>\<^verbatim>\<open>BABI.tokenize\<close>: the tokens of a sentence, punctuation included.\<close>

definition tokenize :: "unicode \<Rightarrow> unicode list" where
  "tokenize sentence = filter (\<lambda>x. x \<noteq> []) (map strip (re_split sentence))"

text \<open>\<^verbatim>\<open>BABI.flatten\<close>: \<^verbatim>\<open>reduce(lambda x, y: x + y, data)\<close>.\<close>

definition flatten :: "'a list list \<Rightarrow> error + 'a list" where
  "flatten data = reduce (\<lambda>x y. x @ y) data"

text \<open>
  \<^verbatim>\<open>BABI.parse_babi\<close>. The list \<^verbatim>\<open>story\<close> of the loop holds a list of tokens for a
  sentence and the empty string \<^verbatim>\<open>''\<close> for a question line; both the empty string and
  an empty list are false, so \<^verbatim>\<open>[x for x in story if x]\<close> keeps the sentences that have
  a token.
\<close>

datatype entry = Placeholder | Sentence "unicode list"

fun substory_of :: "entry list \<Rightarrow> unicode list list" where
  "substory_of [] = []"
| "substory_of (Placeholder # xs) = substory_of xs"
| "substory_of (Sentence ws # xs) = (if ws \<noteq> [] then ws # substory_of xs else substory_of xs)"

type_synonym example = "unicode list \<times> unicode list \<times> unicode"

text \<open>
  The loop over the lines, with its two variables \<^verbatim>\<open>data\<close> and \<^verbatim>\<open>story\<close>. Unpacking
  \<^verbatim>\<open>line.split(' ', 1)\<close> into two names and \<^verbatim>\<open>line.split('\t')\<close> into three raises
  ValueError when the number of fields differs.
\<close>

fun parse_lines ::
  "unicode list \<Rightarrow> (unicode list list \<times> unicode list \<times> unicode) list \<Rightarrow> entry list
     \<Rightarrow> error + (unicode list list \<times> unicode list \<times> unicode) list" where
  "parse_lines [] data story = Inr data"
| "parse_lines (l # ls) data story =
     (case split1 32 l of
        [nid, line] \<Rightarrow>
          (case py_int nid of
             Inl e \<Rightarrow> Inl e
           | Inr n \<Rightarrow>
               (let story = (if n = 1 then [] else story)
                in if 9 \<in> set line then
                     (case split 9 line of
                        [q, a, supporting] \<Rightarrow>
                          (let substory = substory_of story
                           in parse_lines ls (data @ [(substory, tokenize q, a)])
                                (story @ [Placeholder]))
                      | _ \<Rightarrow> Inl ValueError)
                   else
                     (let sent = tokenize line
                      in parse_lines ls data (story @ [Sentence sent]))))
      | _ \<Rightarrow> Inl ValueError)"

definition parse_babi :: "bytes \<Rightarrow> error + example list" where
  "parse_babi babi_data =
     (case data_to_list babi_data of
        Inl e \<Rightarrow> Inl e
      | Inr lines \<Rightarrow>
          (case parse_lines lines [] [] of
             Inl e \<Rightarrow> Inl e
           | Inr data \<Rightarrow>
               map_result
                 (\<lambda>(story, q, answer).
                    case flatten story of Inl e \<Rightarrow> Inl e | Inr s \<Rightarrow> Inr (s, q, answer))
                 data))"

subsection \<open>BABI: vocabulary and vectors\<close>

text \<open>
  \<^verbatim>\<open>compute_statistics\<close> reads \<^verbatim>\<open>self.train_parsed\<close> and \<^verbatim>\<open>self.test_parsed\<close> and sets
  the four attributes of the record \<open>stats\<close>. \<^verbatim>\<open>dict(pairs)\<close> stores the pairs in order, a
  later pair replacing an earlier one with the same key; \<^verbatim>\<open>max\<close> of an empty sequence
  raises ValueError.
\<close>

record stats =
  vocab_size :: nat
  word_idx :: "unicode \<rightharpoonup> nat"
  story_maxlen :: nat
  query_maxlen :: nat

definition dict :: "('k \<times> 'v) list \<Rightarrow> ('k \<rightharpoonup> 'v)" where
  "dict kvs = foldl (\<lambda>m (k, v). m(k \<mapsto> v)) Map.empty kvs"

fun py_max :: "nat list \<Rightarrow> error + nat" where
  "py_max [] = Inl ValueError"
| "py_max (x # xs) = Inr (foldl max x xs)"

definition compute_statistics :: "example list \<Rightarrow> example list \<Rightarrow> error + stats" where
  "compute_statistics train_parsed test_parsed =
     (let all_data = train_parsed @ test_parsed
      in case reduce (\<lambda>x y. x \<union> y) (map (\<lambda>(s, q, a). set (s @ q @ [a])) all_data) of
           Inl e \<Rightarrow> Inl e
         | Inr tokens \<Rightarrow>
             (let vocab = sorted_list_of_set tokens
              in case py_max (map (\<lambda>(s, q, a). length s) all_data) of
                   Inl e \<Rightarrow> Inl e
                 | Inr smax \<Rightarrow>
                     (case py_max (map (\<lambda>(s, q, a). length q) all_data) of
                        Inl e \<Rightarrow> Inl e
                      | Inr qmax \<Rightarrow>
                          Inr \<lparr>vocab_size = length vocab + 1,
                               word_idx = dict (map (\<lambda>(i, c). (c, i + 1)) (enumerate 0 vocab)),
                               story_maxlen = smax,
                               query_maxlen = qmax\<rparr>)))"

text \<open>\<^verbatim>\<open>words_to_vector\<close>: \<^verbatim>\<open>self.word_idx[w]\<close> raises KeyError for a missing key.\<close>

definition words_to_vector :: "stats \<Rightarrow> unicode list \<Rightarrow> error + nat list" where
  "words_to_vector self words =
     map_result (\<lambda>w. case word_idx self w of None \<Rightarrow> Inl KeyError | Some i \<Rightarrow> Inr i) words"

text \<open>
  \<^verbatim>\<open>one_hot_vector\<close>: a vector of \<^verbatim>\<open>vocab_size\<close> zeros with a one stored at the word's
  index; the store raises IndexError outside the vector. The entries are the floats 0.0
  and 1.0.
\<close>

definition one_hot_vector :: "stats \<Rightarrow> unicode \<Rightarrow> error + real list" where
  "one_hot_vector self answer =
     (let vector = replicate (vocab_size self) 0
      in case word_idx self answer of
           None \<Rightarrow> Inl KeyError
         | Some i \<Rightarrow> if i < length vector then Inr (vector[i := 1]) else Inl IndexError)"

text \<open>
  The loop of \<^verbatim>\<open>vectorize_stories\<close>, which fills the lists \<^verbatim>\<open>s\<close>, \<^verbatim>\<open>q\<close> and \<^verbatim>\<open>a\<close>.
  \<^verbatim>\<open>Text.pad_sentences\<close>, which then pads \<^verbatim>\<open>s\<close> and \<^verbatim>\<open>q\<close>, belongs to neon/data/text.py
  and is the parameter \<open>pad_sentences\<close>.
\<close>

fun vectorize_loop ::
  "stats \<Rightarrow> example list \<Rightarrow> error + (nat list list \<times> nat list list \<times> real list list)" where
  "vectorize_loop self [] = Inr ([], [], [])"
| "vectorize_loop self ((story, query, answer) # data) =
     (case words_to_vector self story of
        Inl e \<Rightarrow> Inl e
      | Inr sv \<Rightarrow>
          (case words_to_vector self query of
             Inl e \<Rightarrow> Inl e
           | Inr qv \<Rightarrow>
               (case one_hot_vector self answer of
                  Inl e \<Rightarrow> Inl e
                | Inr av \<Rightarrow>
                    (case vectorize_loop self data of
                       Inl e \<Rightarrow> Inl e
                     | Inr (s, q, a) \<Rightarrow> Inr (sv # s, qv # q, av # a)))))"

definition vectorize_stories ::
  "(nat list list \<Rightarrow> nat \<Rightarrow> 'p) \<Rightarrow> stats \<Rightarrow> example list
     \<Rightarrow> error + ('p \<times> 'p \<times> real list list)" where
  "vectorize_stories pad_sentences self data =
     (case vectorize_loop self data of
        Inl e \<Rightarrow> Inl e
      | Inr (s, q, a) \<Rightarrow>
          Inr (pad_sentences s (story_maxlen self), pad_sentences q (query_maxlen self), a))"

subsection \<open>QA: the minibatch iterator\<close>

text \<open>
  A two-dimensional numpy array is the list of its rows and the number of its columns
  (every row has that many entries). \<^verbatim>\<open>a[start:end, :]\<close> slices the rows as Python slices
  a sequence; \<^verbatim>\<open>a.T\<close> is the transpose.
\<close>

record 'a ndarray =
  ncols :: nat
  rows :: "'a list list"

definition py_slice :: "'a list \<Rightarrow> int \<Rightarrow> int \<Rightarrow> 'a list" where
  "py_slice xs start stop =
     (let n = int (length xs);
          lo = (if start < 0 then max 0 (start + n) else min start n);
          hi = (if stop < 0 then max 0 (stop + n) else min stop n)
      in take (nat (hi - lo)) (drop (nat lo) xs))"

definition row_slice :: "'a ndarray \<Rightarrow> int \<Rightarrow> int \<Rightarrow> 'a ndarray" where
  "row_slice a start stop = a\<lparr>rows := py_slice (rows a) start stop\<rparr>"

definition transposed :: "'a ndarray \<Rightarrow> 'a ndarray" where
  "transposed a =
     \<lparr>ncols = length (rows a), rows = map (\<lambda>j. map (\<lambda>r. r ! j) (rows a)) [0..<ncols a]\<rparr>"

text \<open>
  The backend \<^verbatim>\<open>self.be\<close> of a NervanaObject: its batch size and \<^verbatim>\<open>be.array\<close>, which makes
  a tensor. The field \<open>array\<close> stands for \<^verbatim>\<open>be.array\<close> applied to the copy that
  \<^verbatim>\<open>astype(np.float32, order='C')\<close> makes.
\<close>

record ('a, 't) backend =
  bsz :: int
  array :: "'a ndarray \<Rightarrow> 't"

text \<open>
  The attributes of a QA object. \<^verbatim>\<open>__init__\<close> does not create \<^verbatim>\<open>batch_index\<close>, so it is
  \<open>None\<close> until \<^verbatim>\<open>__iter__\<close> has run; reading a missing attribute raises AttributeError.
\<close>

record 'a QA =
  story :: "'a ndarray"
  query :: "'a ndarray"
  answer :: "'a ndarray"
  ndata :: int
  nbatches :: int
  story_length :: nat
  query_length :: nat
  shape :: "(nat \<times> nat) list"
  batch_index :: "int option"

definition QA_init ::
  "('a, 't) backend \<Rightarrow> 'a ndarray \<Rightarrow> 'a ndarray \<Rightarrow> 'a ndarray \<Rightarrow> error + 'a QA" where
  "QA_init be s q a =
     (if bsz be = 0 then Inl ZeroDivisionError
      else Inr \<lparr>story = s, query = q, answer = a,
                ndata = int (length (rows s)),
                nbatches = int (length (rows s)) div bsz be,
                story_length = ncols s,
                query_length = ncols q,
                shape = [(ncols s, 1), (ncols q, 1)],
                batch_index = None\<rparr>)"

definition minibatch :: "('a, 't) backend \<Rightarrow> 'a QA \<Rightarrow> int \<Rightarrow> int \<Rightarrow> ('t \<times> 't) \<times> 't" where
  "minibatch be self start stop =
     (let story_tensor = array be (transposed (row_slice (story self) start stop));
          query_tensor = array be (transposed (row_slice (query self) start stop));
          answer_tensor = array be (transposed (row_slice (answer self) start stop))
      in ((story_tensor, query_tensor), answer_tensor))"

text \<open>
  The while loop of \<^verbatim>\<open>__iter__\<close>; the result is the list of the minibatches the generator
  yields when it is run to its end, and the object as the loop leaves it.
\<close>

function QA_while :: "('a, 't) backend \<Rightarrow> 'a QA \<Rightarrow> error + ((('t \<times> 't) \<times> 't) list \<times> 'a QA)" where
  "QA_while be self =
     (case batch_index self of
        None \<Rightarrow> Inl AttributeError
      | Some i \<Rightarrow>
          if i < nbatches self then
            (let start = i * bsz be;
                 stop = (i + 1) * bsz be;
                 batch = minibatch be self start stop
             in case QA_while be (self\<lparr>batch_index := Some (i + 1)\<rparr>) of
                  Inl e \<Rightarrow> Inl e
                | Inr (batches, self') \<Rightarrow> Inr (batch # batches, self'))
          else Inr ([], self))"
  by pat_completeness auto
termination
  by (relation "measure (\<lambda>(be, self).
        case batch_index self of None \<Rightarrow> 0 | Some i \<Rightarrow> nat (nbatches self - i))") auto

declare QA_while.simps [simp del]

definition QA_iter :: "('a, 't) backend \<Rightarrow> 'a QA \<Rightarrow> error + ((('t \<times> 't) \<times> 't) list \<times> 'a QA)" where
  "QA_iter be self = QA_while be (self\<lparr>batch_index := Some 0\<rparr>)"

definition QA_reset :: "'a QA \<Rightarrow> 'a QA" where
  "QA_reset self = self"

subsection \<open>Notions of the specification\<close>

text \<open>
  The distinct tokens that occur in a story, a query or as an answer in a list of parsed
  examples, and the sorted vocabulary over them.
\<close>

definition tokens_of :: "example list \<Rightarrow> unicode set" where
  "tokens_of data = (\<Union>(s, q, a) \<in> set data. set s \<union> set q \<union> {a})"

definition vocab_of :: "example list \<Rightarrow> unicode list" where
  "vocab_of data = sorted_list_of_set (tokens_of data)"

text \<open>
  The array that holds the rows of \<open>a\<close> with an index from \<open>lo\<close> up to, and without,
  \<open>hi\<close>, and the minibatch made of these rows of the story, query and answer arrays.
\<close>

definition rows_range :: "'a ndarray \<Rightarrow> nat \<Rightarrow> nat \<Rightarrow> 'a ndarray" where
  "rows_range a lo hi = a\<lparr>rows := take (hi - lo) (drop lo (rows a))\<rparr>"

definition batch_of_rows ::
  "('a, 't) backend \<Rightarrow> 'a ndarray \<Rightarrow> 'a ndarray \<Rightarrow> 'a ndarray \<Rightarrow> nat \<Rightarrow> nat \<Rightarrow> ('t \<times> 't) \<times> 't" where
  "batch_of_rows be s q a lo hi =
     ((array be (transposed (rows_range s lo hi)), array be (transposed (rows_range q lo hi))),
      array be (transposed (rows_range a lo hi)))"

subsection \<open>Example data\<close>

text \<open>
  Two small parsed splits; the token \<open>z\<close> and the answer \<open>d\<close> occur in the test split
  only.
\<close>

definition example_train :: "example list" where
  "example_train = [([u ''b'', u ''a''], [u ''c''], u ''a'')]"

definition example_test :: "example list" where
  "example_test = [([u ''z''], [u ''c'', u ''a''], u ''d'')]"

text \<open>
  A data set of ten examples, whose story, query and answer arrays have one column, and a
  backend with batch size 3 whose tensors are the arrays themselves.
\<close>

definition example_array :: "nat ndarray" where
  "example_array = \<lparr>ncols = 1, rows = [[0], [1], [2], [3], [4], [5], [6], [7], [8], [9]]\<rparr>"

definition example_backend :: "(nat, nat ndarray) backend" where
  "example_backend = \<lparr>bsz = 3, array = (\<lambda>a. a)\<rparr>"

text \<open>
  Texts in the bAbI format. \<open>scenario_input\<close> is the scenario of the specification: a
  sentence and a question, with no newline after the question. In \<open>unterminated_input\<close>
  the last of two sentences has no newline after it. In \<open>question_first_input\<close> the second
  story begins with a question.
\<close>

definition scenario_input :: bytes where
  "scenario_input =
     ''1 Mary moved to the bathroom.'' @ [CHR 0x0A]
     @ ''2 Where is Mary?'' @ [CHR 0x09] @ ''bathroom'' @ [CHR 0x09] @ ''1''"

definition unterminated_input :: bytes where
  "unterminated_input =
     ''1 Mary moved to the bathroom.'' @ [CHR 0x0A] @ ''2 John went to the hallway.''"

definition question_first_input :: bytes where
  "question_first_input =
     ''1 Mary moved to the bathroom.'' @ [CHR 0x0A]
     @ ''2 Where is Mary?'' @ [CHR 0x09] @ ''bathroom'' @ [CHR 0x09] @ ''1'' @ [CHR 0x0A]
     @ ''1 Where is John?'' @ [CHR 0x09] @ ''hallway'' @ [CHR 0x09] @ ''1'' @ [CHR 0x0A]"

section \<open>Properties\<close>


lemma foldl_union: "foldl (\<lambda>x y. x \<union> y) A Xs = A \<union> \<Union>(set Xs)"
  by (induction Xs arbitrary: A) auto

lemma reduce_union: "Xs \<noteq> [] \<Longrightarrow> reduce (\<lambda>x y. x \<union> y) Xs = Inr (\<Union>(set Xs))"
  by (cases Xs) (auto simp: foldl_union)

lemma token_sets: "\<Union>(set (map (\<lambda>(s, q, a). set (s @ q @ [a])) data)) = tokens_of data"
  by (auto simp: tokens_of_def)

lemma finite_tokens_of: "finite (tokens_of data)"
  by (auto simp: tokens_of_def)

lemma foldl_max: "foldl max (x::nat) xs = Max (set (x # xs))"
proof (induction xs arbitrary: x)
  case Nil
  show ?case by simp
next
  case (Cons a xs)
  have "Max (insert (max x a) (set xs)) = Max (insert x (insert a (set xs)))"
  proof (cases "set xs = {}")
    case True
    then show ?thesis by (simp add: max.commute)
  next
    case False
    then show ?thesis by (simp add: max.assoc)
  qed
  with Cons show ?case by simp
qed

lemma py_max_Max: "xs \<noteq> [] \<Longrightarrow> py_max xs = Inr (Max (set xs))"
proof (cases xs)
  case Nil
  assume "xs \<noteq> []"
  with Nil show ?thesis by simp
next
  case (Cons a list)
  show ?thesis unfolding Cons py_max.simps foldl_max ..
qed


lemma dict_rev: "dict kvs = map_of (rev kvs)"
proof -
  have "foldl (\<lambda>m (k, v). m(k \<mapsto> v)) m kvs = m ++ map_of (rev kvs)" for m :: "'a \<rightharpoonup> 'b"
    by (induction kvs arbitrary: m) (auto simp: map_add_upd_left fun_eq_iff map_add_def split: option.splits)
  then show ?thesis by (simp add: dict_def)
qed

lemma dict_distinct: "distinct (map fst kvs) \<Longrightarrow> dict kvs = map_of kvs"
  unfolding dict_rev
  by (rule ext) (metis map_of_eq_None_iff map_of_is_SomeI map_of_SomeD not_Some_eq set_rev)

lemma fst_index_pairs: "map fst (map (\<lambda>(i, c). (c, i + 1)) (enumerate n vs)) = vs"
  by (induction vs arbitrary: n) auto

lemma map_of_index_pairs:
  "distinct vs \<Longrightarrow>
   (map_of (map (\<lambda>(i, c). (c, i + 1)) (enumerate n vs)) w = Some k)
     = (\<exists>i<length vs. vs ! i = w \<and> k = n + i + 1)"
proof (induction vs arbitrary: n)
  case Nil
  show ?case by simp
next
  case (Cons v vs)
  show ?case
  proof (cases "v = w")
    case True
    with Cons.prems have nw: "\<And>i. i < length vs \<Longrightarrow> vs ! i \<noteq> w" by auto
    have "(\<exists>i<length (v # vs). (v # vs) ! i = w \<and> k = n + i + 1) = (k = n + 1)"
    proof
      assume "\<exists>i<length (v # vs). (v # vs) ! i = w \<and> k = n + i + 1"
      then obtain i where i: "i < length (v # vs)" "(v # vs) ! i = w" "k = n + i + 1" by blast
      have "i = 0"
      proof (cases i)
        case 0
        then show ?thesis .
      next
        case (Suc j)
        with i nw [of j] show ?thesis by simp
      qed
      with i show "k = n + 1" by simp
    next
      assume "k = n + 1"
      with True show "\<exists>i<length (v # vs). (v # vs) ! i = w \<and> k = n + i + 1"
        by (intro exI [of _ 0]) simp
    qed
    with True show ?thesis by auto
  next
    case False
    from Cons.prems have d: "distinct vs" by simp
    have "(\<exists>i<length (v # vs). (v # vs) ! i = w \<and> k = n + i + 1)
            = (\<exists>j<length vs. vs ! j = w \<and> k = Suc n + j + 1)"
    proof
      assume "\<exists>i<length (v # vs). (v # vs) ! i = w \<and> k = n + i + 1"
      then obtain i where i: "i < length (v # vs)" "(v # vs) ! i = w" "k = n + i + 1" by blast
      with False obtain j where "i = Suc j" by (cases i) auto
      with i show "\<exists>j<length vs. vs ! j = w \<and> k = Suc n + j + 1"
        by (intro exI [of _ j]) simp
    next
      assume "\<exists>j<length vs. vs ! j = w \<and> k = Suc n + j + 1"
      then obtain j where "j < length vs" "vs ! j = w" "k = Suc n + j + 1" by blast
      then show "\<exists>i<length (v # vs). (v # vs) ! i = w \<and> k = n + i + 1"
        by (intro exI [of _ "Suc j"]) simp
    qed
    with False Cons.IH [OF d, of "Suc n"] show ?thesis by simp
  qed
qed

lemma word_index:
  assumes "distinct vs"
  shows "(dict (map (\<lambda>(i, c). (c, i + 1)) (enumerate 0 vs)) w = Some k)
           = (\<exists>i<length vs. vs ! i = w \<and> k = i + 1)"
proof -
  have "distinct (map fst (map (\<lambda>(i, c). (c, i + 1)) (enumerate 0 vs)))"
    using assms by (simp only: fst_index_pairs)
  then have "dict (map (\<lambda>(i, c). (c, i + 1)) (enumerate 0 vs))
               = map_of (map (\<lambda>(i, c). (c, i + 1)) (enumerate 0 vs))"
    by (rule dict_distinct)
  with map_of_index_pairs [OF assms, of 0 w k] show ?thesis by simp
qed

lemma rank_sorted:
  fixes vs :: "'a::linorder list"
  assumes "sorted vs" "distinct vs" "i < length vs"
  shows "card {v \<in> set vs. v \<le> vs ! i} = i + 1"
proof -
  have "{v \<in> set vs. v \<le> vs ! i} = set (take (Suc i) vs)"
  proof (intro set_eqI iffI)
    fix v assume "v \<in> {v \<in> set vs. v \<le> vs ! i}"
    then obtain j where j: "j < length vs" "vs ! j = v" "v \<le> vs ! i"
      by (auto simp: in_set_conv_nth)
    have "j \<le> i"
    proof (rule ccontr)
      assume "\<not> j \<le> i"
      then have "i < j" by simp
      have "vs ! i \<le> vs ! j"
        using assms(1) \<open>i < j\<close> j(1) by (intro sorted_nth_mono) simp_all
      moreover have "vs ! i \<noteq> vs ! j"
        using \<open>i < j\<close> assms(2,3) j(1) by (simp add: nth_eq_iff_index_eq)
      ultimately show False using j(2,3) by simp
    qed
    with j show "v \<in> set (take (Suc i) vs)"
      by (auto simp: in_set_conv_nth intro!: exI [of _ j])
  next
    fix v assume "v \<in> set (take (Suc i) vs)"
    then obtain j where "j < Suc i" "j < length vs" "vs ! j = v"
      by (auto simp: in_set_conv_nth)
    moreover from this assms(1,3) have "vs ! j \<le> vs ! i"
      by (intro sorted_nth_mono) simp_all
    ultimately show "v \<in> {v \<in> set vs. v \<le> vs ! i}"
      by auto
  qed
  moreover have "card (set (take (Suc i) vs)) = Suc i"
    using assms by (simp add: distinct_card)
  ultimately show ?thesis by simp
qed


lemma vocab_of_props:
  "set (vocab_of data) = tokens_of data" "sorted (vocab_of data)" "distinct (vocab_of data)"
  "length (vocab_of data) = card (tokens_of data)"
  by (simp_all add: vocab_of_def finite_tokens_of)

lemma compute_statistics_Inr:
  assumes "train @ test \<noteq> []"
  shows "compute_statistics train test =
           Inr \<lparr>vocab_size = card (tokens_of (train @ test)) + 1,
                word_idx = dict (map (\<lambda>(i, c). (c, i + 1)) (enumerate 0 (vocab_of (train @ test)))),
                story_maxlen = Max (set (map (\<lambda>(s, q, a). length s) (train @ test))),
                query_maxlen = Max (set (map (\<lambda>(s, q, a). length q) (train @ test)))\<rparr>"
proof -
  from assms have ne: "map f (train @ test) \<noteq> []" for f :: "example \<Rightarrow> 'b"
    by simp
  have r: "reduce (\<lambda>x y. x \<union> y) (map (\<lambda>(s, q, a). set (s @ q @ [a])) (train @ test))
             = Inr (tokens_of (train @ test))"
    by (simp only: reduce_union [OF ne] token_sets)
  have s: "py_max (map (\<lambda>(s, q, a). length s) (train @ test))
             = Inr (Max (set (map (\<lambda>(s, q, a). length s) (train @ test))))"
    by (rule py_max_Max [OF ne])
  have q: "py_max (map (\<lambda>(s, q, a). length q) (train @ test))
             = Inr (Max (set (map (\<lambda>(s, q, a). length q) (train @ test))))"
    by (rule py_max_Max [OF ne])
  show ?thesis
    unfolding compute_statistics_def Let_def r s q
    by (simp add: vocab_of_def finite_tokens_of)
qed

lemma compute_statistics_empty: "compute_statistics [] [] = Inl TypeError"
  by (simp add: compute_statistics_def)

lemma compute_statistics_nonempty:
  "compute_statistics train test = Inr st \<Longrightarrow> train @ test \<noteq> []"
  by (auto simp: compute_statistics_def)

lemma word_idx_nth:
  assumes "compute_statistics train test = Inr st"
  shows "(word_idx st w = Some k)
           = (\<exists>i<length (vocab_of (train @ test)). vocab_of (train @ test) ! i = w \<and> k = i + 1)"
proof -
  from assms have ne: "train @ test \<noteq> []" by (rule compute_statistics_nonempty)
  from assms compute_statistics_Inr [OF ne]
  have "word_idx st = dict (map (\<lambda>(i, c). (c, i + 1)) (enumerate 0 (vocab_of (train @ test))))"
    by auto
  then show ?thesis
    by (simp only: word_index [OF vocab_of_props(3)])
qed

lemma word_idx_rank:
  assumes "compute_statistics train test = Inr st"
  shows "(word_idx st w = Some k)
           = (w \<in> tokens_of (train @ test) \<and> k = card {v \<in> tokens_of (train @ test). v \<le> w})"
proof -
  let ?T = "tokens_of (train @ test)" and ?vs = "vocab_of (train @ test)"
  have "(word_idx st w = Some k) = (\<exists>i<length ?vs. ?vs ! i = w \<and> k = i + 1)"
    by (rule word_idx_nth [OF assms])
  also have "\<dots> = (w \<in> ?T \<and> k = card {v \<in> ?T. v \<le> w})"
  proof
    assume "\<exists>i<length ?vs. ?vs ! i = w \<and> k = i + 1"
    then obtain i where i: "i < length ?vs" "?vs ! i = w" "k = i + 1" by blast
    from i(1,2) have "w \<in> set ?vs" by auto
    moreover have "card {v \<in> set ?vs. v \<le> ?vs ! i} = i + 1"
      using vocab_of_props(2,3) i(1) by (rule rank_sorted)
    ultimately show "w \<in> ?T \<and> k = card {v \<in> ?T. v \<le> w}"
      using i(2,3) by (simp add: vocab_of_props(1))
  next
    assume a: "w \<in> ?T \<and> k = card {v \<in> ?T. v \<le> w}"
    then have "w \<in> set ?vs" by (simp add: vocab_of_props(1))
    then obtain i where i: "i < length ?vs" "?vs ! i = w" by (auto simp: in_set_conv_nth)
    have "card {v \<in> set ?vs. v \<le> ?vs ! i} = i + 1"
      using vocab_of_props(2,3) i(1) by (rule rank_sorted)
    with a i show "\<exists>i<length ?vs. ?vs ! i = w \<and> k = i + 1"
      by (intro exI [of _ i]) (simp add: vocab_of_props(1))
  qed
  finally show ?thesis .
qed

lemma word_idx_dom:
  assumes "compute_statistics train test = Inr st"
  shows "dom (word_idx st) = tokens_of (train @ test)"
  by (auto simp: dom_def word_idx_rank [OF assms])

lemma word_idx_ran:
  assumes "compute_statistics train test = Inr st"
  shows "ran (word_idx st) = {1..card (tokens_of (train @ test))}"
proof (intro set_eqI iffI)
  fix k assume "k \<in> ran (word_idx st)"
  then obtain w where "word_idx st w = Some k" by (auto simp: ran_def)
  then obtain i where "i < length (vocab_of (train @ test))" "k = i + 1"
    unfolding word_idx_nth [OF assms] by blast
  then show "k \<in> {1..card (tokens_of (train @ test))}"
    by (simp add: vocab_of_props(4))
next
  fix k assume "k \<in> {1..card (tokens_of (train @ test))}"
  then have "1 \<le> k" "k \<le> length (vocab_of (train @ test))"
    by (simp_all add: vocab_of_props(4))
  then have "k - 1 < length (vocab_of (train @ test))" "k = (k - 1) + 1"
    by arith+
  then have "word_idx st (vocab_of (train @ test) ! (k - 1)) = Some k"
    unfolding word_idx_nth [OF assms] by blast
  then show "k \<in> ran (word_idx st)" by (auto simp: ran_def)
qed

lemma word_idx_inj:
  assumes "compute_statistics train test = Inr st"
  shows "inj_on (word_idx st) (tokens_of (train @ test))"
proof (rule inj_onI)
  fix w w'
  assume "w \<in> tokens_of (train @ test)" and eq: "word_idx st w = word_idx st w'"
  then have "w \<in> dom (word_idx st)"
    by (simp only: word_idx_dom [OF assms])
  then obtain k where k: "word_idx st w = Some k"
    by blast
  with eq have k': "word_idx st w' = Some k" by simp
  from k obtain i where i: "vocab_of (train @ test) ! i = w" "k = i + 1"
    unfolding word_idx_nth [OF assms] by blast
  from k' obtain j where j: "vocab_of (train @ test) ! j = w'" "k = j + 1"
    unfolding word_idx_nth [OF assms] by blast
  from i j show "w = w'" by simp
qed

lemma word_idx_mono:
  assumes "compute_statistics train test = Inr st"
    and "word_idx st w = Some k" "word_idx st w' = Some k'"
  shows "(w < w') = (k < k')"
proof -
  let ?vs = "vocab_of (train @ test)"
  from assms(2) obtain i where i: "i < length ?vs" "?vs ! i = w" "k = i + 1"
    unfolding word_idx_nth [OF assms(1)] by blast
  from assms(3) obtain j where j: "j < length ?vs" "?vs ! j = w'" "k' = j + 1"
    unfolding word_idx_nth [OF assms(1)] by blast
  have "(?vs ! i < ?vs ! j) = (i < j)"
  proof
    assume lt: "?vs ! i < ?vs ! j"
    show "i < j"
    proof (rule ccontr)
      assume "\<not> i < j"
      then have "j \<le> i" by simp
      with vocab_of_props(2) i(1) have "?vs ! j \<le> ?vs ! i" by (intro sorted_nth_mono)
      with lt show False by simp
    qed
  next
    assume lt: "i < j"
    with vocab_of_props(2) j(1) have "?vs ! i \<le> ?vs ! j" by (intro sorted_nth_mono) simp_all
    moreover have "?vs ! i \<noteq> ?vs ! j"
      using lt i(1) j(1) vocab_of_props(3) [of "train @ test"] by (simp add: nth_eq_iff_index_eq)
    ultimately show "?vs ! i < ?vs ! j" by simp
  qed
  with i j show ?thesis by simp
qed

lemma vocab_size_card:
  "compute_statistics train test = Inr st \<Longrightarrow> vocab_size st = card (tokens_of (train @ test)) + 1"
  using compute_statistics_Inr [OF compute_statistics_nonempty, of train test st] by auto

lemma rank_bounds:
  assumes "finite T" "w \<in> T"
  shows "1 \<le> card {v \<in> T. v \<le> (w::'a::linorder)}" "card {v \<in> T. v \<le> w} \<le> card T"
proof -
  have "{v \<in> T. v \<le> w} \<noteq> {}" using assms by auto
  moreover have "finite {v \<in> T. v \<le> w}" using assms by simp
  ultimately show "1 \<le> card {v \<in> T. v \<le> w}" by (simp add: Suc_le_eq card_gt_0_iff)
  show "card {v \<in> T. v \<le> w} \<le> card T" using assms by (intro card_mono) auto
qed

lemma word_idx_bounds:
  assumes "compute_statistics train test = Inr st" "word_idx st w = Some k"
  shows "1 \<le> k" "k < vocab_size st"
  using assms rank_bounds [OF finite_tokens_of, of w "train @ test"]
  by (simp_all add: word_idx_rank [OF assms(1)] vocab_size_card [OF assms(1)])


subsection \<open>The vocabulary\<close>

text \<open>
  Claim C1, amended. For every pair of parsed train and test splits that hold at least one
  example between them, \<open>compute_statistics\<close> returns; it sets \<open>vocab_size\<close> to the number
  of distinct tokens of the stories, queries and answers of both splits plus 1, and
  \<open>word_idx\<close> gives exactly these tokens an index, each token its own, the indices
  being 1, ..., the number of tokens, so that no token has the index 0.
\<close>

theorem compute_statistics_vocabulary:
  assumes "train @ test \<noteq> []"
  shows "\<exists>st. compute_statistics train test = Inr st
           \<and> vocab_size st = card (tokens_of (train @ test)) + 1
           \<and> dom (word_idx st) = tokens_of (train @ test)
           \<and> inj_on (word_idx st) (tokens_of (train @ test))
           \<and> ran (word_idx st) = {1..card (tokens_of (train @ test))}
           \<and> (\<forall>w. word_idx st w \<noteq> Some 0)"
proof -
  from compute_statistics_Inr [OF assms] obtain st
    where st: "compute_statistics train test = Inr st" by blast
  have "word_idx st w \<noteq> Some 0" for w
    using word_idx_bounds(1) [OF st, of w 0] by auto
  with st vocab_size_card [OF st] word_idx_dom [OF st] word_idx_inj [OF st] word_idx_ran [OF st]
  show ?thesis by blast
qed

text \<open>
  The claim as it was stated covers every pair of splits. For two empty splits (each is
  what \<open>parse_babi\<close> returns for an empty file) the generator given to \<^verbatim>\<open>reduce\<close> is
  empty and \<open>compute_statistics\<close> raises TypeError: it sets no attribute at all.
\<close>

theorem compute_statistics_empty_counterexample:
  "parse_babi [] = Inr []
   \<and> compute_statistics [] [] = Inl TypeError
   \<and> (\<nexists>st. compute_statistics [] [] = Inr st \<and> vocab_size st = card (tokens_of ([] @ [])) + 1)"
  by (simp add: compute_statistics_empty parse_babi_def data_to_list_def)

lemma tokens_of_concat:
  "tokens_of data = set (concat (map (\<lambda>(s, q, a). s @ q @ [a]) data))"
  by (auto simp: tokens_of_def)

lemma vocab_of_sort:
  "vocab_of data = sort (remdups (concat (map (\<lambda>(s, q, a). s @ q @ [a]) data)))"
  by (simp only: vocab_of_def tokens_of_concat sorted_list_of_set_sort_remdups)

lemma example_nonempty: "example_train @ example_test \<noteq> []"
  by (simp add: example_train_def)

lemma example_vocab:
  "vocab_of (example_train @ example_test) = [u ''a'', u ''b'', u ''c'', u ''d'', u ''z'']"
  by (simp add: vocab_of_sort example_train_def example_test_def u_def)

lemma example_tokens:
  "tokens_of (example_train @ example_test) = {u ''a'', u ''b'', u ''c'', u ''d'', u ''z''}"
  using vocab_of_props(1) [of "example_train @ example_test"] by (simp add: example_vocab)

lemma example_card: "card {u ''a'', u ''b'', u ''c'', u ''d'', u ''z''} = 5"
  by (simp add: u_def)

theorem compute_statistics_vocabulary_witness:
  "example_train @ example_test \<noteq> []
   \<and> (\<exists>st. compute_statistics example_train example_test = Inr st
          \<and> vocab_size st = 6
          \<and> dom (word_idx st) = {u ''a'', u ''b'', u ''c'', u ''d'', u ''z''}
          \<and> ran (word_idx st) = {1..5}
          \<and> word_idx st (u ''z'') \<noteq> Some 0)"
proof -
  from compute_statistics_vocabulary [OF example_nonempty]
  obtain st where "compute_statistics example_train example_test = Inr st"
    and "vocab_size st = card (tokens_of (example_train @ example_test)) + 1"
    and "dom (word_idx st) = tokens_of (example_train @ example_test)"
    and "ran (word_idx st) = {1..card (tokens_of (example_train @ example_test))}"
    and "word_idx st (u ''z'') \<noteq> Some 0"
    by blast
  then show ?thesis
    unfolding example_tokens example_card using example_nonempty by simp
qed


lemma example_statistics:
  obtains st where "compute_statistics example_train example_test = Inr st"
  using compute_statistics_Inr [OF example_nonempty] by blast

lemma example_word_idx:
  assumes "compute_statistics example_train example_test = Inr st"
  shows "word_idx st (u ''a'') = Some 1" "word_idx st (u ''b'') = Some 2"
    "word_idx st (u ''c'') = Some 3" "word_idx st (u ''d'') = Some 4"
    "word_idx st (u ''z'') = Some 5"
  unfolding word_idx_nth [OF assms] example_vocab
  by (rule exI [of _ 0], simp, rule exI [of _ 1], simp, rule exI [of _ 2], simp,
      rule exI [of _ 3], simp, rule exI [of _ 4], simp)

lemma example_vocab_size:
  assumes "compute_statistics example_train example_test = Inr st"
  shows "vocab_size st = 6"
  using vocab_size_card [OF assms] by (simp add: example_tokens example_card)

subsection \<open>One-hot answers\<close>

text \<open>
  Claim C2. On a BABI object whose statistics \<open>compute_statistics\<close> has set, for every
  answer word that \<open>word_idx\<close> holds, \<open>one_hot_vector\<close> returns a vector of length
  \<open>vocab_size\<close> whose entry at the word's index is 1, which is its only entry equal to
  1, and whose other entries are 0.
\<close>

theorem one_hot_vector_correct:
  assumes "compute_statistics train test = Inr st" and "word_idx st w = Some i"
  shows "\<exists>v. one_hot_vector st w = Inr v
           \<and> length v = vocab_size st
           \<and> i < length v
           \<and> v ! i = 1
           \<and> {j. j < length v \<and> v ! j = 1} = {i}
           \<and> (\<forall>j<length v. j \<noteq> i \<longrightarrow> v ! j = 0)"
proof -
  from word_idx_bounds(2) [OF assms] have i: "i < vocab_size st" .
  let ?v = "(replicate (vocab_size st) (0::real))[i := 1]"
  from assms(2) i have "one_hot_vector st w = Inr ?v"
    by (simp add: one_hot_vector_def)
  moreover have "length ?v = vocab_size st" by simp
  moreover from i have "?v ! i = 1" by simp
  moreover from i have "{j. j < length ?v \<and> ?v ! j = 1} = {i}"
    by (auto simp: nth_list_update)
  moreover have "\<forall>j<length ?v. j \<noteq> i \<longrightarrow> ?v ! j = 0"
    by (simp add: nth_list_update)
  ultimately show ?thesis using i by auto
qed

theorem one_hot_vector_correct_witness:
  "\<exists>st. compute_statistics example_train example_test = Inr st
      \<and> word_idx st (u ''d'') = Some 4
      \<and> one_hot_vector st (u ''d'') = Inr [0, 0, 0, 0, 1, 0]"
proof -
  obtain st where st: "compute_statistics example_train example_test = Inr st"
    by (rule example_statistics)
  have d: "word_idx st (u ''d'') = Some 4" by (rule example_word_idx(4) [OF st])
  from one_hot_vector_correct [OF st d] obtain v
    where v: "one_hot_vector st (u ''d'') = Inr v" "length v = vocab_size st" "v ! 4 = 1"
      "\<forall>j<length v. j \<noteq> 4 \<longrightarrow> v ! j = 0"
    by blast
  from v(2) have len: "length v = 6" by (simp add: example_vocab_size [OF st])
  have "v = [0, 0, 0, 0, 1, 0]"
  proof (rule nth_equalityI)
    show "length v = length [0, 0, 0, 0, 1, 0::real]" using len by simp
  next
    fix j assume "j < length v"
    with len have "j < 6" by simp
    then consider "j = 0" | "j = 1" | "j = 2" | "j = 3" | "j = 4" | "j = 5" by linarith
    then show "v ! j = [0, 0, 0, 0, 1, 0] ! j"
      using v(3,4) len by cases simp_all
  qed
  with st d v(1) show ?thesis by blast
qed


subsection \<open>Lookup failures\<close>

lemma words_to_vector_total:
  "words_to_vector self ws =
     (if \<exists>w\<in>set ws. word_idx self w = None then Inl KeyError
      else Inr (map (\<lambda>w. the (word_idx self w)) ws))"
  unfolding words_to_vector_def
  by (induction ws) (auto split: option.splits)

lemma one_hot_vector_KeyError:
  "(one_hot_vector self w = Inl KeyError) = (word_idx self w = None)"
  by (cases "word_idx self w") (simp_all add: one_hot_vector_def Let_def)

lemma tokens_of_member:
  assumes "(s, q, a) \<in> set data"
  shows "set s \<subseteq> tokens_of data" "set q \<subseteq> tokens_of data" "a \<in> tokens_of data"
  using assms by (auto simp: tokens_of_def)

lemma word_idx_token:
  assumes "compute_statistics train test = Inr st" "w \<in> tokens_of (train @ test)"
  shows "\<exists>k. word_idx st w = Some k \<and> 1 \<le> k \<and> k < vocab_size st"
proof -
  from assms(2) have "w \<in> dom (word_idx st)" by (simp only: word_idx_dom [OF assms(1)])
  then obtain k where "word_idx st w = Some k" by blast
  with word_idx_bounds [OF assms(1) this] show ?thesis by blast
qed

lemma example_vectors:
  assumes "compute_statistics train test = Inr st" "(s, q, a) \<in> set (train @ test)"
  shows "words_to_vector st s = Inr (map (\<lambda>w. the (word_idx st w)) s)"
    and "words_to_vector st q = Inr (map (\<lambda>w. the (word_idx st w)) q)"
    and "\<exists>v. one_hot_vector st a = Inr v"
proof -
  note mem = tokens_of_member [OF assms(2)]
  have "\<not> (\<exists>w\<in>set s. word_idx st w = None)"
    using word_idx_token [OF assms(1)] mem(1) by fastforce
  then show "words_to_vector st s = Inr (map (\<lambda>w. the (word_idx st w)) s)"
    by (simp only: words_to_vector_total if_False)
  have "\<not> (\<exists>w\<in>set q. word_idx st w = None)"
    using word_idx_token [OF assms(1)] mem(2) by fastforce
  then show "words_to_vector st q = Inr (map (\<lambda>w. the (word_idx st w)) q)"
    by (simp only: words_to_vector_total if_False)
  from word_idx_token [OF assms(1) mem(3)] obtain k
    where "word_idx st a = Some k" "k < vocab_size st" by blast
  then show "\<exists>v. one_hot_vector st a = Inr v"
    by (simp add: one_hot_vector_def)
qed

lemma vectorize_loop_returns:
  assumes "compute_statistics train test = Inr st" "set data \<subseteq> set (train @ test)"
  shows "\<exists>r. vectorize_loop st data = Inr r"
  using assms(2)
proof (induction data)
  case Nil
  show ?case by simp
next
  case (Cons e data)
  obtain s q a where e: "e = (s, q, a)" by (cases e)
  with Cons.prems have mem: "(s, q, a) \<in> set (train @ test)" by simp
  from Cons obtain r where r: "vectorize_loop st data = Inr r" by auto
  obtain rs rq ra where "r = (rs, rq, ra)" by (cases r)
  with r example_vectors [OF assms(1) mem] show ?case
    unfolding e by auto
qed

text \<open>
  Claim C5. \<open>words_to_vector\<close> raises KeyError exactly when one of the words is missing
  from \<open>word_idx\<close> and otherwise returns the indices \<open>word_idx\<close> holds, and
  \<open>one_hot_vector\<close> raises KeyError exactly when the answer is missing. For every example
  of the train or the test split that \<open>compute_statistics\<close> ran over (a token that only the
  test split has included), the statistics exist, every token of the example has an
  index between 1 and \<open>vocab_size - 1\<close>, and the vectors of its story, query and answer
  and those of both whole splits are returned: no lookup fails.
\<close>

theorem vectorize_lookup:
  "(\<forall>ws. words_to_vector self ws =
           (if \<exists>w\<in>set ws. word_idx self w = None then Inl KeyError
            else Inr (map (\<lambda>w. the (word_idx self w)) ws)))
   \<and> (\<forall>w. (one_hot_vector self w = Inl KeyError) = (word_idx self w = None))
   \<and> ((s, q, a) \<in> set (train @ test) \<longrightarrow>
        (\<exists>st. compute_statistics train test = Inr st
           \<and> words_to_vector st s = Inr (map (\<lambda>w. the (word_idx st w)) s)
           \<and> words_to_vector st q = Inr (map (\<lambda>w. the (word_idx st w)) q)
           \<and> (\<forall>w\<in>set s \<union> set q \<union> {a}. \<exists>k. word_idx st w = Some k \<and> 1 \<le> k \<and> k < vocab_size st)
           \<and> (\<exists>v. one_hot_vector st a = Inr v)
           \<and> (\<exists>r. vectorize_loop st train = Inr r)
           \<and> (\<exists>r. vectorize_loop st test = Inr r)))"
proof (intro conjI allI impI)
  fix ws show "words_to_vector self ws =
           (if \<exists>w\<in>set ws. word_idx self w = None then Inl KeyError
            else Inr (map (\<lambda>w. the (word_idx self w)) ws))"
    by (rule words_to_vector_total)
next
  fix w show "(one_hot_vector self w = Inl KeyError) = (word_idx self w = None)"
    by (rule one_hot_vector_KeyError)
next
  assume mem: "(s, q, a) \<in> set (train @ test)"
  then have "train @ test \<noteq> []" by auto
  from compute_statistics_Inr [OF this] obtain st
    where st: "compute_statistics train test = Inr st" by blast
  note mems = tokens_of_member [OF mem]
  have "\<forall>w\<in>set s \<union> set q \<union> {a}. \<exists>k. word_idx st w = Some k \<and> 1 \<le> k \<and> k < vocab_size st"
    using word_idx_token [OF st] mems by blast
  moreover have "\<exists>r. vectorize_loop st train = Inr r" "\<exists>r. vectorize_loop st test = Inr r"
    by (rule vectorize_loop_returns [OF st], simp)+
  ultimately show "\<exists>st. compute_statistics train test = Inr st
           \<and> words_to_vector st s = Inr (map (\<lambda>w. the (word_idx st w)) s)
           \<and> words_to_vector st q = Inr (map (\<lambda>w. the (word_idx st w)) q)
           \<and> (\<forall>w\<in>set s \<union> set q \<union> {a}. \<exists>k. word_idx st w = Some k \<and> 1 \<le> k \<and> k < vocab_size st)
           \<and> (\<exists>v. one_hot_vector st a = Inr v)
           \<and> (\<exists>r. vectorize_loop st train = Inr r)
           \<and> (\<exists>r. vectorize_loop st test = Inr r)"
    using st example_vectors [OF st mem] by blast
qed


lemma example_missing_word:
  assumes "compute_statistics example_train example_test = Inr st"
  shows "word_idx st (u ''x'') = None"
proof -
  have "u ''x'' \<notin> tokens_of (example_train @ example_test)"
    by (simp add: example_tokens u_def)
  with word_idx_dom [OF assms] have "u ''x'' \<notin> dom (word_idx st)" by blast
  then show ?thesis by blast
qed

theorem vectorize_lookup_witness:
  "\<exists>st. compute_statistics example_train example_test = Inr st
      \<and> ([u ''z''], [u ''c'', u ''a''], u ''d'') \<in> set (example_train @ example_test)
      \<and> u ''z'' \<notin> tokens_of example_train
      \<and> words_to_vector st [u ''z''] = Inr [5]
      \<and> words_to_vector st [u ''c'', u ''a''] = Inr [3, 1]
      \<and> (\<exists>v. one_hot_vector st (u ''d'') = Inr v)
      \<and> (\<exists>r. vectorize_loop st example_test = Inr r)
      \<and> word_idx st (u ''x'') = None
      \<and> words_to_vector st [u ''a'', u ''x''] = Inl KeyError
      \<and> one_hot_vector st (u ''x'') = Inl KeyError"
proof -
  obtain st0 where st0: "compute_statistics example_train example_test = Inr st0"
    by (rule example_statistics)
  have mem: "([u ''z''], [u ''c'', u ''a''], u ''d'') \<in> set (example_train @ example_test)"
    by (simp add: example_test_def)
  have only_test: "u ''z'' \<notin> tokens_of example_train"
    by (simp add: tokens_of_def example_train_def u_def)
  note main = vectorize_lookup [of st0 "[u ''z'']" "[u ''c'', u ''a'']" "u ''d''"
      example_train example_test]
  from main mem obtain st where st: "compute_statistics example_train example_test = Inr st"
    and sv: "words_to_vector st [u ''z''] = Inr (map (\<lambda>w. the (word_idx st w)) [u ''z''])"
    and qv: "words_to_vector st [u ''c'', u ''a'']
               = Inr (map (\<lambda>w. the (word_idx st w)) [u ''c'', u ''a''])"
    and av: "\<exists>v. one_hot_vector st (u ''d'') = Inr v"
    and tv: "\<exists>r. vectorize_loop st example_test = Inr r"
    by blast
  from st st0 have eq: "st = st0" by simp
  note idx = example_word_idx [OF st0] example_missing_word [OF st0]
  from main have "words_to_vector st0 [u ''a'', u ''x''] =
           (if \<exists>w\<in>set [u ''a'', u ''x'']. word_idx st0 w = None then Inl KeyError
            else Inr (map (\<lambda>w. the (word_idx st0 w)) [u ''a'', u ''x'']))"
    by blast
  then have k1: "words_to_vector st0 [u ''a'', u ''x''] = Inl KeyError"
    by (simp add: idx)
  from main have "(one_hot_vector st0 (u ''x'') = Inl KeyError) = (word_idx st0 (u ''x'') = None)"
    by blast
  then have k2: "one_hot_vector st0 (u ''x'') = Inl KeyError"
    by (simp add: idx)
  from sv qv av tv k1 k2 st0 mem only_test idx(6) show ?thesis
    unfolding eq by (intro exI [of _ st0]) (simp add: idx)
qed

subsection \<open>Determinism of the statistics\<close>

lemma tokens_of_set_cong: "set d = set d' \<Longrightarrow> tokens_of d = tokens_of d'"
  by (simp add: tokens_of_def)

lemma compute_statistics_set_cong:
  assumes "set (train' @ test') = set (train @ test)"
  shows "compute_statistics train' test' = compute_statistics train test"
proof (cases "train @ test = []")
  case True
  with assms have "train' @ test' = []" by (metis set_empty)
  with True show ?thesis by (simp add: compute_statistics_empty)
next
  case ne: False
  with assms have ne': "train' @ test' \<noteq> []" by (metis set_empty)
  have t: "tokens_of (train' @ test') = tokens_of (train @ test)"
    using assms by (rule tokens_of_set_cong)
  have m: "set (map f (train' @ test')) = set (map f (train @ test))" for f :: "example \<Rightarrow> nat"
    using assms by (simp only: set_map)
  show ?thesis
    unfolding compute_statistics_Inr [OF ne'] compute_statistics_Inr [OF ne] vocab_of_def t m ..
qed

text \<open>
  Claim C6. The statistics are a function of the parsed data: a second run on data with
  the same examples (identical data in particular) has the same outcome, that is the same
  \<open>vocab_size\<close>, \<open>word_idx\<close>, \<open>story_maxlen\<close> and \<open>query_maxlen\<close>. The index of a token is
  its rank in the sorted order of the distinct tokens (the number of tokens not above it,
  so the indices run from 1 to the number of tokens), and a smaller token has a smaller
  index.
\<close>

theorem compute_statistics_deterministic:
  assumes "set (train' @ test') = set (train @ test)"
  shows "compute_statistics train' test' = compute_statistics train test
         \<and> (\<forall>st. compute_statistics train test = Inr st \<longrightarrow>
               (\<forall>w k. (word_idx st w = Some k)
                  = (w \<in> tokens_of (train @ test)
                     \<and> k = card {v \<in> tokens_of (train @ test). v \<le> w}))
               \<and> (\<forall>w w' k k'. word_idx st w = Some k \<longrightarrow> word_idx st w' = Some k'
                     \<longrightarrow> (w < w') = (k < k')))"
proof (intro conjI allI impI)
  show "compute_statistics train' test' = compute_statistics train test"
    using assms by (rule compute_statistics_set_cong)
next
  fix st w k
  assume "compute_statistics train test = Inr st"
  then show "(word_idx st w = Some k)
          = (w \<in> tokens_of (train @ test) \<and> k = card {v \<in> tokens_of (train @ test). v \<le> w})"
    by (rule word_idx_rank)
next
  fix st w w' k k'
  assume "compute_statistics train test = Inr st"
    and "word_idx st w = Some k" "word_idx st w' = Some k'"
  then show "(w < w') = (k < k')" by (rule word_idx_mono)
qed

theorem compute_statistics_deterministic_witness:
  "set (example_test @ example_train) = set (example_train @ example_test)
   \<and> compute_statistics example_test example_train
       = compute_statistics example_train example_test
   \<and> (\<exists>st. compute_statistics example_train example_test = Inr st
         \<and> word_idx st (u ''a'') = Some 1
         \<and> word_idx st (u ''z'') = Some 5
         \<and> (u ''a'' < u ''z'') = ((1::nat) < 5))"
proof -
  obtain st where st: "compute_statistics example_train example_test = Inr st"
    by (rule example_statistics)
  have sw: "set (example_test @ example_train) = set (example_train @ example_test)"
    by auto
  note idx = example_word_idx [OF st]
  from compute_statistics_deterministic [OF sw] st idx(1,5)
  have "compute_statistics example_test example_train
          = compute_statistics example_train example_test"
    and "(u ''a'' < u ''z'') = ((1::nat) < 5)"
    by blast+
  with st sw idx(1,5) show ?thesis by blast
qed

subsection \<open>Flattening\<close>

lemma foldl_append_concat: "foldl (\<lambda>x y. x @ y) x xs = x @ concat xs"
  by (induction xs arbitrary: x) simp_all

text \<open>
  Claim C8. For every non-empty list of sentences, \<open>flatten\<close> returns the tokens of the
  sentences concatenated in order, a list whose length is the sum of the numbers of
  tokens of the sentences.
\<close>

theorem flatten_concat:
  assumes "data \<noteq> []"
  shows "\<exists>r. flatten data = Inr r \<and> r = concat data \<and> length r = sum_list (map length data)"
proof (cases data)
  case Nil
  with assms show ?thesis by simp
next
  case (Cons x xs)
  then show ?thesis
    by (simp add: flatten_def foldl_append_concat length_concat)
qed

theorem flatten_concat_witness:
  "[[u ''Mary'', u ''moved''], [], [u ''.'']] \<noteq> []
   \<and> flatten [[u ''Mary'', u ''moved''], [], [u ''.'']] = Inr [u ''Mary'', u ''moved'', u ''.'']
   \<and> length [u ''Mary'', u ''moved'', u ''.''] = 2 + 0 + 1"
  using flatten_concat [of "[[u ''Mary'', u ''moved''], [], [u ''.'']]"] by simp


subsection \<open>The minibatch iterator\<close>

lemma minibatch_batch_index [simp]:
  "minibatch be (self\<lparr>batch_index := b\<rparr>) start stop = minibatch be self start stop"
  by (simp add: minibatch_def)

lemma QA_while_eq:
  "batch_index self = Some i \<Longrightarrow>
   QA_while be self =
     Inr (map (\<lambda>j. minibatch be self (j * bsz be) ((j + 1) * bsz be)) [i..nbatches self - 1],
          self\<lparr>batch_index := Some (max i (nbatches self))\<rparr>)"
proof (induction be self arbitrary: i rule: QA_while.induct)
  case (1 be self)
  show ?case
  proof (cases "i < nbatches self")
    case True
    let ?self' = "self\<lparr>batch_index := Some (i + 1)\<rparr>"
    have "QA_while be ?self' =
            Inr (map (\<lambda>j. minibatch be ?self' (j * bsz be) ((j + 1) * bsz be))
                   [i + 1..nbatches ?self' - 1],
                 ?self'\<lparr>batch_index := Some (max (i + 1) (nbatches ?self'))\<rparr>)"
      using "1.prems" True by (intro "1.IH" [of i]) simp_all
    moreover have "[i..nbatches self - 1] = i # [i + 1..nbatches self - 1]"
      using True by (simp add: upto_rec1)
    moreover have "max (i + 1) (nbatches self) = max i (nbatches self)"
      using True by simp
    ultimately show ?thesis
      using "1.prems" True by (subst QA_while.simps) (simp add: Let_def)
  next
    case False
    then have "[i..nbatches self - 1] = []" "max i (nbatches self) = i" by simp_all
    moreover have "self\<lparr>batch_index := Some i\<rparr> = self" using "1.prems" by simp
    ultimately show ?thesis
      using "1.prems" False by (subst QA_while.simps) simp
  qed
qed

lemma QA_iter_eq:
  "QA_iter be self =
     Inr (map (\<lambda>j. minibatch be self (j * bsz be) ((j + 1) * bsz be)) [0..nbatches self - 1],
          self\<lparr>batch_index := Some (max 0 (nbatches self))\<rparr>)"
  unfolding QA_iter_def
  by (subst QA_while_eq [of _ 0]) simp_all

lemma upto_map_int: "[0..int n - 1] = map int [0..<n]"
proof (induction n)
  case 0
  show ?case by simp
next
  case (Suc n)
  have "[0..int (Suc n) - 1] = [0..int n - 1] @ [int n]"
    using upto_rec2 [of 0 "int n"] by simp
  with Suc show ?case by simp
qed

lemma py_slice_range:
  assumes "lo \<le> hi" "hi \<le> length xs"
  shows "py_slice xs (int lo) (int hi) = take (hi - lo) (drop lo xs)"
  using assms by (simp add: py_slice_def Let_def min_def nat_diff_distrib')

lemma row_slice_range:
  assumes "lo \<le> hi" "hi \<le> length (rows a)"
  shows "row_slice a (int lo) (int hi) = rows_range a lo hi"
  by (simp add: row_slice_def rows_range_def py_slice_range [OF assms])

lemma batch_upper: "i < N div B \<Longrightarrow> Suc i * B \<le> (N::nat)"
proof -
  assume "i < N div B"
  then have "Suc i \<le> N div B" by simp
  then have "Suc i * B \<le> (N div B) * B" by (rule mult_le_mono1)
  also have "\<dots> \<le> N" by simp
  finally show ?thesis .
qed

lemma concat_batches:
  "concat (map (\<lambda>i. take B (drop (i * B) xs)) [0..<n]) = take (n * B) xs"
proof (induction n)
  case 0
  show ?case by simp
next
  case (Suc n)
  have "take (n * B) xs @ take B (drop (n * B) xs) = take (n * B + B) xs"
    by (simp add: take_add)
  with Suc show ?case by (simp add: add.commute)
qed


lemma QA_init_fields:
  assumes "QA_init be s q a = Inr self"
  shows "story self = s" "query self = q" "answer self = a"
    "nbatches self = int (length (rows s)) div bsz be" "bsz be \<noteq> 0"
  using assms by (auto simp: QA_init_def split: if_splits)

lemma minibatch_range:
  assumes "lo \<le> hi" "hi \<le> length (rows (story self))"
    "hi \<le> length (rows (query self))" "hi \<le> length (rows (answer self))"
  shows "minibatch be self (int lo) (int hi)
           = batch_of_rows be (story self) (query self) (answer self) lo hi"
  using assms by (simp add: minibatch_def batch_of_rows_def row_slice_range)

text \<open>
  Claim C3. For a QA object made from a story, a query and an answer array of \<open>N\<close> rows
  each and a backend of batch size \<open>B > 0\<close>, the iterator yields exactly \<open>N div B\<close>
  minibatches; the minibatch of step \<open>i\<close> is made of the rows \<open>i * B\<close> up to, and without,
  \<open>(i + 1) * B\<close> of the three arrays, which are \<open>B\<close> rows; all the rows yielded are the
  first \<open>N - N mod B\<close> rows, so the last \<open>N mod B\<close> examples are never yielded.
\<close>

theorem QA_iter_batches:
  assumes "0 < bsz be"
    and "QA_init be s q a = Inr self"
    and "length (rows q) = length (rows s)"
    and "length (rows a) = length (rows s)"
  shows "\<exists>self'. QA_iter be self =
           Inr (map (\<lambda>i. batch_of_rows be s q a (i * nat (bsz be)) ((i + 1) * nat (bsz be)))
                  [0..<length (rows s) div nat (bsz be)],
                self')
         \<and> (\<forall>i<length (rows s) div nat (bsz be).
               length (rows (rows_range s (i * nat (bsz be)) ((i + 1) * nat (bsz be))))
                 = nat (bsz be))
         \<and> concat (map (\<lambda>i. rows (rows_range s (i * nat (bsz be)) ((i + 1) * nat (bsz be))))
                     [0..<length (rows s) div nat (bsz be)])
             = take (length (rows s) - length (rows s) mod nat (bsz be)) (rows s)"
proof -
  define B where "B = nat (bsz be)"
  define N where "N = length (rows s)"
  from assms(1) have B: "0 < B" "bsz be = int B" by (simp_all add: B_def)
  note f = QA_init_fields [OF assms(2)]
  have nb: "nbatches self = int (N div B)"
    by (simp add: f(4) B(2) N_def zdiv_int)
  have batch: "minibatch be self (int i * bsz be) ((int i + 1) * bsz be)
                 = batch_of_rows be s q a (i * B) ((i + 1) * B)" if "i < N div B" for i
  proof -
    from that have up: "(i + 1) * B \<le> N" using batch_upper [of i N B] by simp
    have "minibatch be self (int (i * B)) (int ((i + 1) * B))
            = batch_of_rows be (story self) (query self) (answer self) (i * B) ((i + 1) * B)"
      using up assms(3,4) by (intro minibatch_range) (simp_all add: f N_def)
    moreover have "int (i * B) = int i * bsz be" "int ((i + 1) * B) = (int i + 1) * bsz be"
      by (simp_all add: B(2) algebra_simps)
    ultimately show ?thesis by (simp only: f(1,2,3))
  qed
  have "map (\<lambda>j. minibatch be self (j * bsz be) ((j + 1) * bsz be)) [0..nbatches self - 1]
          = map (\<lambda>i. batch_of_rows be s q a (i * B) ((i + 1) * B)) [0..<N div B]"
    unfolding nb upto_map_int by (simp add: batch)
  then have 1: "\<exists>self'. QA_iter be self =
           Inr (map (\<lambda>i. batch_of_rows be s q a (i * B) ((i + 1) * B)) [0..<N div B], self')"
    by (simp add: QA_iter_eq)
  have 2: "\<forall>i<N div B. length (rows (rows_range s (i * B) ((i + 1) * B))) = B"
  proof (intro allI impI)
    fix i assume "i < N div B"
    then have "(i + 1) * B \<le> N" using batch_upper [of i N B] by simp
    then show "length (rows (rows_range s (i * B) ((i + 1) * B))) = B"
      by (simp add: rows_range_def N_def)
  qed
  have "rows (rows_range s (i * B) ((i + 1) * B)) = take B (drop (i * B) (rows s))" for i
    by (simp add: rows_range_def)
  then have "concat (map (\<lambda>i. rows (rows_range s (i * B) ((i + 1) * B))) [0..<N div B])
          = take (N div B * B) (rows s)"
    by (simp only: concat_batches)
  moreover have "N div B * B = N - N mod B"
    by (simp add: minus_mod_eq_div_mult)
  ultimately have 3: "concat (map (\<lambda>i. rows (rows_range s (i * B) ((i + 1) * B))) [0..<N div B])
          = take (N - N mod B) (rows s)"
    by simp
  from 1 2 3 show ?thesis unfolding B_def N_def by blast
qed


lemma example_QA_init:
  obtains self where
    "QA_init example_backend example_array example_array example_array = Inr self"
  by (simp add: QA_init_def example_backend_def)

lemma example_rows: "length (rows example_array) = 10"
  by (simp add: example_array_def)

lemma example_bsz: "bsz example_backend = 3" "nat (bsz example_backend) = 3"
  by (simp_all add: example_backend_def)

theorem QA_iter_batches_witness:
  "0 < bsz example_backend
   \<and> length (rows example_array) = 10
   \<and> (\<exists>self self'.
         QA_init example_backend example_array example_array example_array = Inr self
         \<and> QA_iter example_backend self =
             Inr ([((\<lparr>ncols = 3, rows = [[0, 1, 2]]\<rparr>, \<lparr>ncols = 3, rows = [[0, 1, 2]]\<rparr>),
                    \<lparr>ncols = 3, rows = [[0, 1, 2]]\<rparr>),
                   ((\<lparr>ncols = 3, rows = [[3, 4, 5]]\<rparr>, \<lparr>ncols = 3, rows = [[3, 4, 5]]\<rparr>),
                    \<lparr>ncols = 3, rows = [[3, 4, 5]]\<rparr>),
                   ((\<lparr>ncols = 3, rows = [[6, 7, 8]]\<rparr>, \<lparr>ncols = 3, rows = [[6, 7, 8]]\<rparr>),
                    \<lparr>ncols = 3, rows = [[6, 7, 8]]\<rparr>)],
                  self'))"
proof -
  obtain self where self:
    "QA_init example_backend example_array example_array example_array = Inr self"
    by (rule example_QA_init)
  have pos: "0 < bsz example_backend" by (simp add: example_bsz)
  from QA_iter_batches [OF pos self refl refl] obtain self' where
    "QA_iter example_backend self =
       Inr (map (\<lambda>i. batch_of_rows example_backend example_array example_array example_array
                       (i * nat (bsz example_backend)) ((i + 1) * nat (bsz example_backend)))
              [0..<length (rows example_array) div nat (bsz example_backend)],
            self')"
    by blast
  moreover have "[0..<length (rows example_array) div nat (bsz example_backend)] = [0, 1, 2]"
    by (simp add: example_rows example_bsz upt_rec)
  ultimately have "QA_iter example_backend self =
       Inr (map (\<lambda>i. batch_of_rows example_backend example_array example_array example_array
                       (i * 3) ((i + 1) * 3)) [0, 1, 2], self')"
    by (simp add: example_bsz)
  then show ?thesis
    using pos self example_rows
    by (simp add: batch_of_rows_def rows_range_def transposed_def example_array_def
          example_backend_def upt_rec)
qed

text \<open>
  Claim C9. Every call of \<open>__iter__\<close> sets \<open>batch_index\<close> to 0 before the loop, so
  the minibatches it yields do not depend on the value \<open>batch_index\<close> had: iterating the
  object again, as the first iteration left it, yields the same sequence of minibatches
  (as many as the integer quotient of the number of examples by the batch size, from the
  first row on), although \<open>reset\<close> leaves the object as it is.
\<close>

theorem QA_iter_restarts:
  assumes "QA_init be s q a = Inr self"
  shows "\<exists>batches self1.
           QA_iter be self = Inr (batches, self1)
           \<and> batches = map (\<lambda>j. minibatch be self (j * bsz be) ((j + 1) * bsz be))
                         [0..int (length (rows s)) div bsz be - 1]
           \<and> length batches = nat (int (length (rows s)) div bsz be)
           \<and> batch_index self1 = Some (max 0 (int (length (rows s)) div bsz be))
           \<and> QA_reset self1 = self1
           \<and> QA_iter be (QA_reset self1) = Inr (batches, self1)
           \<and> (\<forall>b. QA_iter be (self1\<lparr>batch_index := b\<rparr>) = Inr (batches, self1))"
proof -
  note f = QA_init_fields [OF assms]
  define batches where
    "batches = map (\<lambda>j. minibatch be self (j * bsz be) ((j + 1) * bsz be))
                 [0..int (length (rows s)) div bsz be - 1]"
  define self1 where "self1 = self\<lparr>batch_index := Some (max 0 (nbatches self))\<rparr>"
  have 1: "QA_iter be self = Inr (batches, self1)"
    by (simp add: QA_iter_eq batches_def self1_def f(4))
  have 2: "length batches = nat (int (length (rows s)) div bsz be)"
    by (simp add: batches_def)
  have 3: "batch_index self1 = Some (max 0 (int (length (rows s)) div bsz be))"
    by (simp add: self1_def f(4))
  have 4: "QA_iter be (self1\<lparr>batch_index := b\<rparr>) = Inr (batches, self1)" for b
    by (simp add: QA_iter_eq batches_def self1_def f(4))
  have "self1\<lparr>batch_index := batch_index self1\<rparr> = self1" by simp
  with 4 [of "batch_index self1"] have 5: "QA_iter be (QA_reset self1) = Inr (batches, self1)"
    by (simp add: QA_reset_def)
  from 1 2 3 4 5 show ?thesis
    unfolding batches_def by (intro exI [of _ self1] exI [of _ batches]) (simp add: QA_reset_def batches_def)
qed

theorem QA_iter_restarts_witness:
  "\<exists>self batches self1.
     QA_init example_backend example_array example_array example_array = Inr self
     \<and> QA_iter example_backend self = Inr (batches, self1)
     \<and> length batches = 3
     \<and> batch_index self1 = Some 3
     \<and> QA_reset self1 = self1
     \<and> QA_iter example_backend (QA_reset self1) = Inr (batches, self1)
     \<and> QA_iter example_backend (self1\<lparr>batch_index := Some 1\<rparr>) = Inr (batches, self1)"
proof -
  obtain self where self:
    "QA_init example_backend example_array example_array example_array = Inr self"
    by (rule example_QA_init)
  have q: "int (length (rows example_array)) div bsz example_backend = 3"
    by (simp add: example_rows example_bsz)
  from QA_iter_restarts [OF self] obtain batches self1 where
    "QA_iter example_backend self = Inr (batches, self1)"
    "length batches = nat (int (length (rows example_array)) div bsz example_backend)"
    "batch_index self1 = Some (max 0 (int (length (rows example_array)) div bsz example_backend))"
    "QA_reset self1 = self1"
    "QA_iter example_backend (QA_reset self1) = Inr (batches, self1)"
    "\<forall>b. QA_iter example_backend (self1\<lparr>batch_index := b\<rparr>) = Inr (batches, self1)"
    by blast
  with self show ?thesis
    unfolding q by (intro exI [of _ self] exI [of _ batches] exI [of _ self1]) simp
qed


subsection \<open>The parser\<close>

lemmas text_simps = decode_def strip_def isspace_def split1_def py_int_def digit_def
  digits_value_def tokenize_def word_char_def cont_def u_def Let_def

lemma scenario_lines:
  "data_to_list scenario_input = Inr [u ''1 Mary moved to the bathroom.'']"
  by (simp add: data_to_list_def scenario_input_def text_simps)

lemma scenario_newline_lines:
  "data_to_list (scenario_input @ [CHR 0x0A]) =
     Inr [u ''1 Mary moved to the bathroom.'',
          u ''2 Where is Mary?'' @ [9] @ u ''bathroom'' @ [9] @ u ''1'']"
  by (simp add: data_to_list_def scenario_input_def text_simps)

text \<open>
  Claim C4 (the code departs from it). The scenario text has no newline after the question
  line, and \<open>data_to_list\<close> drops whatever follows the last newline: the question line
  is lost, and \<open>parse_babi\<close> returns no example at all. With a newline after the question
  line it returns the single example of the claim.
\<close>

theorem parse_babi_scenario:
  "parse_babi scenario_input = Inr []
   \<and> parse_babi (scenario_input @ [CHR 0x0A]) =
       Inr [(tokenize (u ''Mary moved to the bathroom.''),
             [u ''Where'', u ''is'', u ''Mary'', u ''?''], u ''bathroom'')]
   \<and> tokenize (u ''Mary moved to the bathroom.'')
       = [u ''Mary'', u ''moved'', u ''to'', u ''the'', u ''bathroom'', u ''.'']"
proof (intro conjI)
  show "parse_babi scenario_input = Inr []"
    by (simp add: parse_babi_def scenario_lines) (simp add: text_simps)
  show "parse_babi (scenario_input @ [CHR 0x0A]) =
       Inr [(tokenize (u ''Mary moved to the bathroom.''),
             [u ''Where'', u ''is'', u ''Mary'', u ''?''], u ''bathroom'')]"
    by (simp add: parse_babi_def scenario_newline_lines) (simp add: text_simps flatten_def)
  show "tokenize (u ''Mary moved to the bathroom.'')
       = [u ''Mary'', u ''moved'', u ''to'', u ''the'', u ''bathroom'', u ''.'']"
    by (simp add: text_simps)
qed

lemma split_no_sep: "sep \<notin> set s \<Longrightarrow> split sep s = [s]"
  by (induction s) auto

lemma split_nonempty: "split sep s \<noteq> []"
  by (induction s) (auto split: list.splits)

lemma split_append_sep: "split sep (xs @ sep # ys) = split sep xs @ split sep ys"
proof (induction xs)
  case Nil
  show ?case by simp
next
  case (Cons c xs)
  obtain p ps where "split sep xs = p # ps"
    using split_nonempty [of sep xs] by (cases "split sep xs") auto
  with Cons show ?case by simp
qed

lemma butlast_split_unterminated:
  "butlast (split sep (xs @ sep # filter (\<lambda>c. c \<noteq> sep) ys)) = split sep xs"
proof -
  have "split sep (filter (\<lambda>c. c \<noteq> sep) ys) = [filter (\<lambda>c. c \<noteq> sep) ys]"
    by (rule split_no_sep) simp
  then show ?thesis by (simp add: split_append_sep)
qed

text \<open>
  Claim C7 (the code departs from it). \<open>data_to_list\<close> drops the last piece of the split
  whatever it holds, not only an empty one: of two sentences of which the second has no
  newline after it, only the first is returned. In general the text after the last
  newline is dropped, and the lines before it are all cleaned and returned; so no line
  is lost exactly when the text ends with a newline.
\<close>

theorem data_to_list_unterminated:
  "data_to_list unterminated_input = Inr [u ''1 Mary moved to the bathroom.'']
   \<and> data_to_list (unterminated_input @ [CHR 0x0A])
       = Inr [u ''1 Mary moved to the bathroom.'', u ''2 John went to the hallway.'']
   \<and> data_to_list (data @ CHR 0x0A # filter (\<lambda>c. c \<noteq> CHR 0x0A) rest)
       = map_result (\<lambda>line. case decode line of Inl e \<Rightarrow> Inl e | Inr l \<Rightarrow> Inr (strip l))
           (split (CHR 0x0A) data)"
proof (intro conjI)
  show "data_to_list unterminated_input = Inr [u ''1 Mary moved to the bathroom.'']"
    by (simp add: data_to_list_def unterminated_input_def text_simps)
  show "data_to_list (unterminated_input @ [CHR 0x0A])
       = Inr [u ''1 Mary moved to the bathroom.'', u ''2 John went to the hallway.'']"
    by (simp add: data_to_list_def unterminated_input_def text_simps)
  show "data_to_list (data @ CHR 0x0A # filter (\<lambda>c. c \<noteq> CHR 0x0A) rest)
       = map_result (\<lambda>line. case decode line of Inl e \<Rightarrow> Inl e | Inr l \<Rightarrow> Inr (strip l))
           (split (CHR 0x0A) data)"
    unfolding data_to_list_def Let_def butlast_split_unterminated ..
qed

lemma split_three_has_sep: "split sep s = [x, y, z] \<Longrightarrow> sep \<in> set s"
  using split_no_sep [of sep s] by auto

lemma flatten_error: "flatten data = Inl e \<Longrightarrow> e = TypeError"
  by (cases data) (simp_all add: flatten_def)

lemma map_result_error:
  assumes "\<And>x e. f x = Inl e \<Longrightarrow> e = E" and "x \<in> set xs" and "f x = Inl E"
  shows "map_result f xs = Inl E"
  using assms(2)
proof (induction xs)
  case Nil
  then show ?case by simp
next
  case (Cons y ys)
  show ?case
  proof (cases "f y")
    case (Inl e)
    with assms(1) [of y e] show ?thesis by simp
  next
    case (Inr v)
    with Cons assms(3) have "map_result f ys = Inl E" by auto
    with Inr show ?thesis by simp
  qed
qed


lemma parse_lines_extends:
  "parse_lines ls data entries = Inr r \<Longrightarrow> \<exists>ext. r = data @ ext"
proof (induction ls arbitrary: data entries)
  case Nil
  then show ?case by simp
next
  case (Cons l ls)
  from Cons.prems show ?case
    by (auto simp: Let_def split: list.splits sum.splits if_splits dest!: Cons.IH)
qed

lemma parse_lines_suffix:
  "parse_lines (pre @ ls) data entries = Inr r \<Longrightarrow>
   \<exists>data' entries'. parse_lines ls data' entries' = Inr r"
proof (induction pre arbitrary: data entries)
  case Nil
  then show ?case by auto
next
  case (Cons l pre)
  from Cons.prems show ?case
    by (auto simp: Let_def split: list.splits sum.splits if_splits dest!: Cons.IH)
qed

lemma parse_lines_question_first:
  assumes "split1 32 l = [nid, line]" and "py_int nid = Inr 1"
    and "split 9 line = [q, a, supporting]"
  shows "parse_lines (l # ls) data entries
           = parse_lines ls (data @ [([], tokenize q, a)]) [Placeholder]"
  using assms split_three_has_sep [OF assms(3)] by simp


lemma question_first_lines:
  "data_to_list question_first_input =
     Inr ([u ''1 Mary moved to the bathroom.'',
           u ''2 Where is Mary?'' @ [9] @ u ''bathroom'' @ [9] @ u ''1'']
          @ (u ''1 Where is John?'' @ [9] @ u ''hallway'' @ [9] @ u ''1'') # [])"
  by (simp add: data_to_list_def question_first_input_def text_simps)

text \<open>
  Claim C10. When a question line with the number 1 (a line with two tabs, the first of
  a new story) is among the lines of the text, \<open>parse_babi\<close> raises: an error of the loop
  over the lines if a line is malformed, and otherwise TypeError, because the story
  recorded for that question is the empty list and \<open>flatten\<close> reduces it without an
  initial value. No example with an empty story is returned. The witness is a text in the
  bAbI format whose second story begins with a question.
\<close>

theorem parse_babi_question_first:
  assumes "data_to_list babi_data = Inr (pre @ l # post)"
    and "split1 32 l = [nid, line]"
    and "py_int nid = Inr 1"
    and "split 9 line = [q, a, supporting]"
  shows "flatten ([] :: unicode list list) = Inl TypeError
         \<and> parse_babi babi_data =
             (case parse_lines (pre @ l # post) [] [] of
                Inl e \<Rightarrow> Inl e
              | Inr data \<Rightarrow> Inl TypeError)"
proof (cases "parse_lines (pre @ l # post) [] []")
  case (Inl e)
  with assms(1) show ?thesis by (simp add: parse_babi_def flatten_def)
next
  case (Inr data)
  let ?f = "\<lambda>(entries, q, answer).
              case flatten entries of Inl e \<Rightarrow> Inl e
              | Inr s \<Rightarrow> Inr (s :: unicode list, q :: unicode list, answer :: unicode)"
  from parse_lines_suffix [OF Inr] obtain data' entries'
    where "parse_lines (l # post) data' entries' = Inr data" by blast
  then have "parse_lines post (data' @ [([], tokenize q, a)]) [Placeholder] = Inr data"
    by (simp only: parse_lines_question_first [OF assms(2,3,4)])
  from parse_lines_extends [OF this] have mem: "([], tokenize q, a) \<in> set data" by auto
  have err: "e = TypeError" if "?f x = Inl e" for x e
    using that by (cases x) (auto split: sum.splits dest: flatten_error)
  have "?f ([], tokenize q, a) = Inl TypeError" by (simp add: flatten_def)
  with err mem have "map_result ?f data = Inl TypeError" by (rule map_result_error)
  with assms(1) Inr show ?thesis by (simp add: parse_babi_def flatten_def)
qed

theorem parse_babi_question_first_witness:
  "data_to_list question_first_input =
     Inr ([u ''1 Mary moved to the bathroom.'',
           u ''2 Where is Mary?'' @ [9] @ u ''bathroom'' @ [9] @ u ''1'']
          @ (u ''1 Where is John?'' @ [9] @ u ''hallway'' @ [9] @ u ''1'') # [])
   \<and> split1 32 (u ''1 Where is John?'' @ [9] @ u ''hallway'' @ [9] @ u ''1'')
       = [u ''1'', u ''Where is John?'' @ [9] @ u ''hallway'' @ [9] @ u ''1'']
   \<and> py_int (u ''1'') = Inr 1
   \<and> split 9 (u ''Where is John?'' @ [9] @ u ''hallway'' @ [9] @ u ''1'')
       = [u ''Where is John?'', u ''hallway'', u ''1'']
   \<and> parse_babi question_first_input = Inl TypeError"
proof -
  have 1: "split1 32 (u ''1 Where is John?'' @ [9] @ u ''hallway'' @ [9] @ u ''1'')
             = [u ''1'', u ''Where is John?'' @ [9] @ u ''hallway'' @ [9] @ u ''1'']"
    by (simp add: text_simps)
  have 2: "py_int (u ''1'') = Inr 1"
    by (simp add: text_simps)
  have 3: "split 9 (u ''Where is John?'' @ [9] @ u ''hallway'' @ [9] @ u ''1'')
             = [u ''Where is John?'', u ''hallway'', u ''1'']"
    by (simp add: text_simps)
  have "\<exists>data. parse_lines ([u ''1 Mary moved to the bathroom.'',
           u ''2 Where is Mary?'' @ [9] @ u ''bathroom'' @ [9] @ u ''1'']
          @ (u ''1 Where is John?'' @ [9] @ u ''hallway'' @ [9] @ u ''1'') # []) [] [] = Inr data"
    by (simp add: text_simps)
  with parse_babi_question_first [OF question_first_lines 1 2 3]
  have "parse_babi question_first_input = Inl TypeError" by auto
  with question_first_lines 1 2 3 show ?thesis by blast
qed

end
